theory Spec2Isabelle
  imports Main
begin

section \<open>Values, field definitions and contexts\<close>

text \<open>
  The configuration files are JSON, loaded by \<^verbatim>\<open>json.load\<close>; a value is what a field's
  \<^verbatim>\<open>default\<close>, \<^verbatim>\<open>unit\<close> or an evaluated formula can hold. Floating-point numbers and
  nested objects are left out: the evaluator only stores values and compares them with
  \<^verbatim>\<open>!=\<close>, and no property below depends on arithmetic.
\<close>

datatype pyval = PNone | PBool bool | PInt int | PStr string | PList "pyval list"

text \<open>Python's \<^verbatim>\<open>==\<close> on these values: \<^verbatim>\<open>bool\<close> is a subclass of \<^verbatim>\<open>int\<close>
  (\<^verbatim>\<open>True == 1\<close>), lists compare element by element, \<^verbatim>\<open>None\<close> equals only itself.\<close>

fun py_eq :: "pyval \<Rightarrow> pyval \<Rightarrow> bool" where
  "py_eq PNone PNone = True"
| "py_eq (PBool a) (PBool b) = (a = b)"
| "py_eq (PBool a) (PInt j) = ((if a then 1 else 0) = j)"
| "py_eq (PInt i) (PBool b) = (i = (if b then 1 else 0))"
| "py_eq (PInt i) (PInt j) = (i = j)"
| "py_eq (PStr s) (PStr t) = (s = t)"
| "py_eq (PList xs) (PList ys) = list_all2 py_eq xs ys"
| "py_eq _ _ = False"

text \<open>\<^verbatim>\<open>d.get(key)\<close>: the value, or \<^verbatim>\<open>None\<close> when the key is absent.\<close>

definition py_get :: "pyval option \<Rightarrow> pyval" where
  "py_get r = (case r of None \<Rightarrow> PNone | Some v \<Rightarrow> v)"

text \<open>
  A field definition is a JSON object. The code subscripts \<^verbatim>\<open>field["id"]\<close>, so the id is
  mandatory; every other key is read with \<^verbatim>\<open>.get\<close> or tested with \<^verbatim>\<open>in\<close>, so it is
  optional (\<open>None\<close> is an absent key, \<open>Some PNone\<close> is JSON \<^verbatim>\<open>null\<close>).
\<close>

record field =
  fid :: string
  label :: "pyval option"
  ftype :: "pyval option"
  unit :: "pyval option"
  source :: "pyval option"
  formula :: "string option"
  dflt :: "pyval option"

type_synonym ctx = "string \<rightharpoonup> pyval"

text \<open>
  The formula interpreter (\<^verbatim>\<open>asteval.Interpreter\<close>) is a third-party library. It is a
  parameter of the model: a function from the symbol table (the entries written by
  \<^verbatim>\<open>engine.symtable.update(ctx)\<close> on top of the interpreter's built-in names) and the formula
  text to either an exception \<open>Inl e\<close> or the formula's value. A formula is an expression:
  evaluating it reads the symbol table and does not change it. How the library reports a
  formula it cannot evaluate is not fixed here: an interpreter that raises returns \<open>Inl\<close>,
  one that records the error and returns \<^verbatim>\<open>None\<close> returns \<open>Inr PNone\<close>.
\<close>

type_synonym 'e engine = "ctx \<Rightarrow> string \<Rightarrow> 'e + pyval"

section \<open>The evaluator of \<^verbatim>\<open>ScenarioBuilder\<close>\<close>

definition is_user :: "field \<Rightarrow> bool" where
  "is_user f = py_eq (py_get (source f)) (PStr ''user'')"

definition is_calc :: "field \<Rightarrow> bool" where
  "is_calc f = (py_eq (py_get (source f)) (PStr ''calc'') \<and> formula f \<noteq> None)"

text \<open>The seeding loop: \<^verbatim>\<open>if field.get("source") == "user" and field["id"] not in ctx\<close>.\<close>

fun seed :: "field list \<Rightarrow> ctx \<Rightarrow> ctx" where
  "seed [] ctx = ctx"
| "seed (f # fs) ctx =
     seed fs (if is_user f \<and> ctx (fid f) = None then ctx(fid f \<mapsto> py_get (dflt f)) else ctx)"

text \<open>One pass of the inner \<^verbatim>\<open>for field in fields\<close> loop. The symbol table \<open>symtable\<close> was
  updated before the pass and stays fixed during it; \<open>ctx\<close> and \<open>changed\<close> are the
  loop's variables. An exception of the engine ends the pass.\<close>

fun eval_pass :: "'e engine \<Rightarrow> ctx \<Rightarrow> field list \<Rightarrow> ctx \<Rightarrow> bool \<Rightarrow> 'e + (ctx \<times> bool)" where
  "eval_pass engine symtable [] ctx changed = Inr (ctx, changed)"
| "eval_pass engine symtable (f # fs) ctx changed =
     (if is_calc f then
        (case engine symtable (the (formula f)) of
           Inl e \<Rightarrow> Inl e
         | Inr v \<Rightarrow>
             if \<not> py_eq (py_get (ctx (fid f))) v
             then eval_pass engine symtable fs (ctx(fid f \<mapsto> v)) True
             else eval_pass engine symtable fs ctx changed)
      else eval_pass engine symtable fs ctx changed)"

text \<open>The outer loop \<^verbatim>\<open>for _ in range(8)\<close>, with \<open>n\<close> the passes still allowed. Beside the
  context it returns the number of passes it ran, which the source does not return; the
  count is there so that properties of the pass budget can be stated.\<close>

fun passes :: "'e engine \<Rightarrow> field list \<Rightarrow> nat \<Rightarrow> ctx \<Rightarrow> ctx \<Rightarrow> 'e + (ctx \<times> nat)" where
  "passes engine fs 0 symtable ctx = Inr (ctx, 0)"
| "passes engine fs (Suc n) symtable ctx =
     (let symtable' = symtable ++ ctx in
      case eval_pass engine symtable' fs ctx False of
        Inl e \<Rightarrow> Inl e
      | Inr (ctx', changed) \<Rightarrow>
          if \<not> changed then Inr (ctx', 1)
          else (case passes engine fs n symtable' ctx' of
                  Inl e \<Rightarrow> Inl e
                | Inr (c, k) \<Rightarrow> Inr (c, Suc k)))"

definition compute_trace :: "'e engine \<Rightarrow> field list \<Rightarrow> ctx \<Rightarrow> 'e + (ctx \<times> nat)" where
  "compute_trace engine fs inputs = passes engine fs 8 Map.empty (seed fs inputs)"

definition compute_values :: "'e engine \<Rightarrow> field list \<Rightarrow> ctx \<Rightarrow> 'e + ctx" where
  "compute_values engine fs inputs =
     (case compute_trace engine fs inputs of Inl e \<Rightarrow> Inl e | Inr (c, k) \<Rightarrow> Inr c)"

section \<open>The evaluator of \<^verbatim>\<open>TemplateRenderer\<close>\<close>

text \<open>
  \<^verbatim>\<open>TemplateRenderer\<close> keeps the caller's overrides and caches the context it computed in
  \<^verbatim>\<open>self._values\<close>. Its seeding reads \<^verbatim>\<open>field.get("source", "user")\<close>: an absent source
  counts as \<^verbatim>\<open>"user"\<close>.
\<close>

record renderer =
  overrides :: ctx
  cached_values :: "ctx option"

definition tr_is_user :: "field \<Rightarrow> bool" where
  "tr_is_user f = py_eq (case source f of None \<Rightarrow> PStr ''user'' | Some v \<Rightarrow> v) (PStr ''user'')"

fun tr_seed :: "field list \<Rightarrow> ctx \<Rightarrow> ctx" where
  "tr_seed [] ctx = ctx"
| "tr_seed (f # fs) ctx =
     tr_seed fs (if tr_is_user f \<and> ctx (fid f) = None then ctx(fid f \<mapsto> py_get (dflt f)) else ctx)"

fun tr_eval_pass :: "'e engine \<Rightarrow> ctx \<Rightarrow> field list \<Rightarrow> ctx \<Rightarrow> bool \<Rightarrow> 'e + (ctx \<times> bool)" where
  "tr_eval_pass engine symtable [] ctx changed = Inr (ctx, changed)"
| "tr_eval_pass engine symtable (f # fs) ctx changed =
     (if py_eq (py_get (source f)) (PStr ''calc'') \<and> formula f \<noteq> None then
        (case engine symtable (the (formula f)) of
           Inl e \<Rightarrow> Inl e
         | Inr result \<Rightarrow>
             if \<not> py_eq (py_get (ctx (fid f))) result
             then tr_eval_pass engine symtable fs (ctx(fid f \<mapsto> result)) True
             else tr_eval_pass engine symtable fs ctx changed)
      else tr_eval_pass engine symtable fs ctx changed)"

fun tr_passes :: "'e engine \<Rightarrow> field list \<Rightarrow> nat \<Rightarrow> ctx \<Rightarrow> ctx \<Rightarrow> 'e + ctx" where
  "tr_passes engine fs 0 symtable ctx = Inr ctx"
| "tr_passes engine fs (Suc n) symtable ctx =
     (let symtable' = symtable ++ ctx in
      case tr_eval_pass engine symtable' fs ctx False of
        Inl e \<Rightarrow> Inl e
      | Inr (ctx', changed) \<Rightarrow>
          if \<not> changed then Inr ctx' else tr_passes engine fs n symtable' ctx')"

text \<open>The method returns the context (or raises) and leaves the renderer with its cache
  filled; when it raises, the cache is not assigned.\<close>

definition tr_compute_values ::
    "'e engine \<Rightarrow> renderer \<Rightarrow> field list \<Rightarrow> ('e + ctx) \<times> renderer" where
  "tr_compute_values engine self fs =
     (case cached_values self of
        Some v \<Rightarrow> (Inr v, self)
      | None \<Rightarrow>
          (case tr_passes engine fs 8 Map.empty (tr_seed fs (overrides self)) of
             Inl e \<Rightarrow> (Inl e, self)
           | Inr ctx \<Rightarrow> (Inr ctx, self\<lparr>cached_values := Some ctx\<rparr>)))"

section \<open>Merging the globals catalogue with a scenario\<close>

text \<open>
  The two configuration objects, with the keys \<^verbatim>\<open>_merge_fields\<close> reads. Each key is read
  with \<^verbatim>\<open>.get(key, default)\<close>, so each may be absent. An entry of \<^verbatim>\<open>overrides\<close> is an
  object of which only the keys \<^verbatim>\<open>unit\<close> and \<^verbatim>\<open>default\<close> are consulted.
\<close>

record globals_cfg =
  globals_fields :: "field list option"

record override =
  unit_override :: "pyval option"
  default_override :: "pyval option"

record scenario_cfg =
  use_fields :: "string list option"
  scenario_overrides :: "(string \<rightharpoonup> override) option"
  scenario_fields :: "field list option"

text \<open>The reads with a default: \<^verbatim>\<open>globals_cfg.get("fields", [])\<close>,
  \<^verbatim>\<open>scenario_cfg.get("use_fields", [])\<close>, \<^verbatim>\<open>scenario_cfg.get("fields", [])\<close> and
  \<^verbatim>\<open>scenario_cfg.get("overrides", {}).get(field_id, {})\<close>.\<close>

definition catalogue :: "globals_cfg \<Rightarrow> field list" where
  "catalogue globals = (case globals_fields globals of None \<Rightarrow> [] | Some fs \<Rightarrow> fs)"

definition used_ids :: "scenario_cfg \<Rightarrow> string list" where
  "used_ids scenario = (case use_fields scenario of None \<Rightarrow> [] | Some ids \<Rightarrow> ids)"

definition local_fields :: "scenario_cfg \<Rightarrow> field list" where
  "local_fields scenario = (case scenario_fields scenario of None \<Rightarrow> [] | Some fs \<Rightarrow> fs)"

definition override_for :: "scenario_cfg \<Rightarrow> string \<Rightarrow> override" where
  "override_for scenario field_id =
     (case scenario_overrides scenario of
        None \<Rightarrow> \<lparr>unit_override = None, default_override = None\<rparr>
      | Some m \<Rightarrow>
          (case m field_id of
             None \<Rightarrow> \<lparr>unit_override = None, default_override = None\<rparr>
           | Some ov \<Rightarrow> ov))"

text \<open>The only exception \<^verbatim>\<open>_merge_fields\<close> raises on well-typed configuration:
  \<^verbatim>\<open>gmap[field_id]\<close> on an id the catalogue does not have is Python's \<^verbatim>\<open>KeyError\<close>, which
  carries the key.\<close>

datatype error = KeyError string

text \<open>\<^verbatim>\<open>{field["id"]: field for field in ...}\<close>: a later field replaces an earlier one of the
  same id.\<close>

fun gmap_of :: "field list \<Rightarrow> (string \<rightharpoonup> field) \<Rightarrow> (string \<rightharpoonup> field)" where
  "gmap_of [] gmap = gmap"
| "gmap_of (f # fs) gmap = gmap_of fs (gmap(fid f \<mapsto> f))"

text \<open>The body of the loop after the lookup: the copy \<open>base\<close> of the global field takes
  the override's \<^verbatim>\<open>unit\<close> and \<^verbatim>\<open>default\<close> when the override has them, then its source is
  set.\<close>

definition apply_overrides :: "field \<Rightarrow> override \<Rightarrow> field" where
  "apply_overrides base ov =
     (let base = (case unit_override ov of None \<Rightarrow> base | Some v \<Rightarrow> base\<lparr>unit := Some v\<rparr>);
          base = (case default_override ov of None \<Rightarrow> base | Some v \<Rightarrow> base\<lparr>dflt := Some v\<rparr>)
      in base\<lparr>source := Some (PStr ''user'')\<rparr>)"

fun merge_loop ::
    "(string \<rightharpoonup> field) \<Rightarrow> scenario_cfg \<Rightarrow> string list \<Rightarrow> field list \<Rightarrow> error + field list" where
  "merge_loop gmap scenario [] merged = Inr merged"
| "merge_loop gmap scenario (field_id # ids) merged =
     (case gmap field_id of
        None \<Rightarrow> Inl (KeyError field_id)
      | Some g \<Rightarrow>
          merge_loop gmap scenario ids
            (merged @ [apply_overrides g (override_for scenario field_id)]))"

definition merge_fields :: "globals_cfg \<Rightarrow> scenario_cfg \<Rightarrow> error + field list" where
  "merge_fields globals scenario =
     (case merge_loop (gmap_of (catalogue globals) Map.empty) scenario (used_ids scenario) [] of
        Inl e \<Rightarrow> Inl e
      | Inr merged \<Rightarrow> Inr (merged @ local_fields scenario))"

section \<open>The same two functions on a store of objects\<close>

text \<open>
  Python passes dictionaries and lists by reference, so whether a function changes its
  arguments depends on which objects it writes to. Here the objects live in a store:
  field dictionaries, lists of references to field dictionaries, and value dictionaries
  (the inputs and the context), each at an address; \<open>next_addr\<close> is the first address not
  yet allocated. Every assignment and every \<^verbatim>\<open>append\<close> of the source is a write to the
  store at the address of the object it acts on.
\<close>

type_synonym addr = nat

record heap =
  field_objs :: "addr \<Rightarrow> field"
  list_objs :: "addr \<Rightarrow> addr list"
  dict_objs :: "addr \<Rightarrow> ctx"
  next_addr :: addr

definition new_field :: "field \<Rightarrow> heap \<Rightarrow> addr \<times> heap" where
  "new_field f h =
     (next_addr h, h\<lparr>field_objs := (field_objs h)(next_addr h := f), next_addr := Suc (next_addr h)\<rparr>)"

definition new_list :: "addr list \<Rightarrow> heap \<Rightarrow> addr \<times> heap" where
  "new_list xs h =
     (next_addr h, h\<lparr>list_objs := (list_objs h)(next_addr h := xs), next_addr := Suc (next_addr h)\<rparr>)"

definition new_dict :: "ctx \<Rightarrow> heap \<Rightarrow> addr \<times> heap" where
  "new_dict d h =
     (next_addr h, h\<lparr>dict_objs := (dict_objs h)(next_addr h := d), next_addr := Suc (next_addr h)\<rparr>)"

definition field_update :: "addr \<Rightarrow> (field \<Rightarrow> field) \<Rightarrow> heap \<Rightarrow> heap" where
  "field_update a upd h = h\<lparr>field_objs := (field_objs h)(a := upd (field_objs h a))\<rparr>"

definition list_extend :: "addr \<Rightarrow> addr list \<Rightarrow> heap \<Rightarrow> heap" where
  "list_extend a xs h = h\<lparr>list_objs := (list_objs h)(a := list_objs h a @ xs)\<rparr>"

definition dict_set :: "addr \<Rightarrow> string \<Rightarrow> pyval \<Rightarrow> heap \<Rightarrow> heap" where
  "dict_set a k v h = h\<lparr>dict_objs := (dict_objs h)(a := (dict_objs h a)(k \<mapsto> v))\<rparr>"

text \<open>The configuration objects hold references: the catalogue's and the scenario's
  \<^verbatim>\<open>fields\<close> are list objects. Ids and overrides are only read, and are kept as values:
  of \<open>scenario_values\<close> the functions on the store read \<^verbatim>\<open>use_fields\<close> and \<^verbatim>\<open>overrides\<close>,
  and they read the scenario's own fields through \<open>scenario_fields_ref\<close>.\<close>

record globals_ref =
  globals_fields_ref :: "addr option"

record scenario_ref =
  scenario_values :: scenario_cfg
  scenario_fields_ref :: "addr option"

text \<open>\<open>gmap\<close> maps an id to the catalogue's own field object, not to a copy.\<close>

fun h_gmap_of :: "heap \<Rightarrow> addr list \<Rightarrow> (string \<rightharpoonup> addr) \<Rightarrow> (string \<rightharpoonup> addr)" where
  "h_gmap_of h [] gmap = gmap"
| "h_gmap_of h (a # as) gmap = h_gmap_of h as (gmap(fid (field_objs h a) \<mapsto> a))"

text \<open>The assignments \<^verbatim>\<open>base[key] = overrides[key]\<close> and \<^verbatim>\<open>base["source"] = "user"\<close>
  write to the object \<open>base\<close>.\<close>

definition h_apply_overrides :: "addr \<Rightarrow> override \<Rightarrow> heap \<Rightarrow> heap" where
  "h_apply_overrides base ov h =
     (let h = (case unit_override ov of None \<Rightarrow> h
               | Some v \<Rightarrow> field_update base (\<lambda>f. f\<lparr>unit := Some v\<rparr>) h);
          h = (case default_override ov of None \<Rightarrow> h
               | Some v \<Rightarrow> field_update base (\<lambda>f. f\<lparr>dflt := Some v\<rparr>) h)
      in field_update base (\<lambda>f. f\<lparr>source := Some (PStr ''user'')\<rparr>) h)"

text \<open>\<^verbatim>\<open>base = dict(gmap[field_id])\<close> allocates the copy; \<^verbatim>\<open>merged.append(base)\<close> writes
  to the list \<open>merged\<close>.\<close>

fun h_merge_loop ::
    "(string \<rightharpoonup> addr) \<Rightarrow> scenario_cfg \<Rightarrow> string list \<Rightarrow> addr \<Rightarrow> heap \<Rightarrow> (error + unit) \<times> heap" where
  "h_merge_loop gmap scenario [] merged h = (Inr (), h)"
| "h_merge_loop gmap scenario (field_id # ids) merged h =
     (case gmap field_id of
        None \<Rightarrow> (Inl (KeyError field_id), h)
      | Some g \<Rightarrow>
          (let (base, h) = new_field (field_objs h g) h;
               h = h_apply_overrides base (override_for scenario field_id) h;
               h = list_extend merged [base] h
           in h_merge_loop gmap scenario ids merged h))"

definition h_merge_fields :: "globals_ref \<Rightarrow> scenario_ref \<Rightarrow> heap \<Rightarrow> (error + addr) \<times> heap" where
  "h_merge_fields globals scenario h =
     (let gmap = h_gmap_of h
                   (case globals_fields_ref globals of None \<Rightarrow> [] | Some a \<Rightarrow> list_objs h a)
                   Map.empty;
          (merged, h) = new_list [] h
      in case h_merge_loop gmap (scenario_values scenario)
                (used_ids (scenario_values scenario)) merged h of
           (Inl e, h) \<Rightarrow> (Inl e, h)
         | (Inr _, h) \<Rightarrow>
             (Inr merged,
              list_extend merged
                (case scenario_fields_ref scenario of None \<Rightarrow> [] | Some a \<Rightarrow> list_objs h a) h))"

text \<open>\<^verbatim>\<open>_compute_values\<close>: \<^verbatim>\<open>ctx = dict(inputs)\<close> allocates the context; every
  \<^verbatim>\<open>ctx[...] = ...\<close> is a write at its address. The fields are read through the list
  object and the field objects.\<close>

fun h_seed :: "addr list \<Rightarrow> addr \<Rightarrow> heap \<Rightarrow> heap" where
  "h_seed [] ctx h = h"
| "h_seed (a # as) ctx h =
     h_seed as ctx
       (if is_user (field_objs h a) \<and> dict_objs h ctx (fid (field_objs h a)) = None
        then dict_set ctx (fid (field_objs h a)) (py_get (dflt (field_objs h a))) h
        else h)"

fun h_eval_pass ::
    "'e engine \<Rightarrow> ctx \<Rightarrow> addr list \<Rightarrow> addr \<Rightarrow> bool \<Rightarrow> heap \<Rightarrow> ('e + bool) \<times> heap" where
  "h_eval_pass engine symtable [] ctx changed h = (Inr changed, h)"
| "h_eval_pass engine symtable (a # as) ctx changed h =
     (if is_calc (field_objs h a) then
        (case engine symtable (the (formula (field_objs h a))) of
           Inl e \<Rightarrow> (Inl e, h)
         | Inr v \<Rightarrow>
             if \<not> py_eq (py_get (dict_objs h ctx (fid (field_objs h a)))) v
             then h_eval_pass engine symtable as ctx True (dict_set ctx (fid (field_objs h a)) v h)
             else h_eval_pass engine symtable as ctx changed h)
      else h_eval_pass engine symtable as ctx changed h)"

fun h_passes ::
    "'e engine \<Rightarrow> addr \<Rightarrow> nat \<Rightarrow> ctx \<Rightarrow> addr \<Rightarrow> heap \<Rightarrow> ('e + unit) \<times> heap" where
  "h_passes engine fields_ref 0 symtable ctx h = (Inr (), h)"
| "h_passes engine fields_ref (Suc n) symtable ctx h =
     (let symtable' = symtable ++ dict_objs h ctx in
      case h_eval_pass engine symtable' (list_objs h fields_ref) ctx False h of
        (Inl e, h) \<Rightarrow> (Inl e, h)
      | (Inr changed, h) \<Rightarrow>
          if \<not> changed then (Inr (), h) else h_passes engine fields_ref n symtable' ctx h)"

definition h_compute_values ::
    "'e engine \<Rightarrow> addr \<Rightarrow> addr \<Rightarrow> heap \<Rightarrow> ('e + addr) \<times> heap" where
  "h_compute_values engine fields_ref inputs_ref h =
     (let (ctx, h) = new_dict (dict_objs h inputs_ref) h;
          h = h_seed (list_objs h fields_ref) ctx h
      in case h_passes engine fields_ref 8 Map.empty ctx h of
           (Inl e, h) \<Rightarrow> (Inl e, h)
         | (Inr _, h) \<Rightarrow> (Inr ctx, h))"


text \<open>The configuration values a store holds behind the references: what the functions
  on values are given when the functions on the store are given the references.\<close>

definition globals_at :: "heap \<Rightarrow> globals_ref \<Rightarrow> globals_cfg" where
  "globals_at h globals =
     \<lparr>globals_fields =
        map_option (\<lambda>a. map (field_objs h) (list_objs h a)) (globals_fields_ref globals)\<rparr>"

definition scenario_at :: "heap \<Rightarrow> scenario_ref \<Rightarrow> scenario_cfg" where
  "scenario_at h scenario =
     (scenario_values scenario)
       \<lparr>scenario_fields :=
          map_option (\<lambda>a. map (field_objs h) (list_objs h a)) (scenario_fields_ref scenario)\<rparr>"

section \<open>A formula engine for the examples\<close>

text \<open>
  The concrete examples need an engine. This one evaluates the formulas they use as the
  Python expressions they are: \<^verbatim>\<open>a + 1\<close> on an integer \<^verbatim>\<open>a\<close>, the constants \<^verbatim>\<open>None\<close> and
  \<^verbatim>\<open>7\<close>, and \<^verbatim>\<open>1 / 0\<close>, which raises. An unbound name raises \<^verbatim>\<open>NameError\<close>.
\<close>

datatype py_exn = NameError string | ZeroDivisionError | TypeError | SyntaxError

definition sample_engine :: "py_exn engine" where
  "sample_engine symtable fm =
     (if fm = ''a + 1'' then
        (case symtable ''a'' of
           None \<Rightarrow> Inl (NameError ''a'')
         | Some (PInt i) \<Rightarrow> Inr (PInt (i + 1))
         | Some _ \<Rightarrow> Inl TypeError)
      else if fm = ''None'' then Inr PNone
      else if fm = ''7'' then Inr (PInt 7)
      else if fm = ''1 / 0'' then Inl ZeroDivisionError
      else Inl SyntaxError)"

definition calc_field :: "string \<Rightarrow> string \<Rightarrow> field" where
  "calc_field i fm =
     \<lparr>fid = i, label = None, ftype = None, unit = None,
      source = Some (PStr ''calc''), formula = Some fm, dflt = None\<rparr>"

definition user_field :: "string \<Rightarrow> pyval \<Rightarrow> field" where
  "user_field i d =
     \<lparr>fid = i, label = None, ftype = None, unit = None,
      source = Some (PStr ''user''), formula = None, dflt = Some d\<rparr>"

text \<open>A field with no \<^verbatim>\<open>source\<close> key.\<close>

definition bare_field :: "string \<Rightarrow> pyval \<Rightarrow> field" where
  "bare_field i d =
     \<lparr>fid = i, label = None, ftype = None, unit = None,
      source = None, formula = None, dflt = Some d\<rparr>"


section \<open>Facts about values and seeding\<close>

lemma py_eq_PStr: "py_eq v (PStr s) \<longleftrightarrow> v = PStr s"
  by (cases v) auto

lemma py_eq_PNone: "py_eq PNone v \<longleftrightarrow> v = PNone"
  by (cases v) auto

lemma map_add_absorb: "dom m \<subseteq> dom n \<Longrightarrow> m ++ n = n"
  by (auto simp: map_add_def fun_eq_iff split: option.splits)

text \<open>Seeding in closed form: the defaults of the user fields, first field first, under
  the context it started from.\<close>

lemma seed_map_of:
  "seed fs ctx = map_of (map (\<lambda>f. (fid f, py_get (dflt f))) (filter is_user fs)) ++ ctx"
proof (induction fs arbitrary: ctx)
  case Nil
  show ?case by simp
next
  case (Cons f fs)
  let ?ud = "\<lambda>fs. map (\<lambda>f. (fid f, py_get (dflt f))) (filter is_user fs)"
  have ud: "?ud (f # fs) = (if is_user f then (fid f, py_get (dflt f)) # ?ud fs else ?ud fs)"
    by simp
  show ?case
  proof (cases "is_user f \<and> ctx (fid f) = None")
    case True
    have "seed (f # fs) ctx = seed fs (ctx(fid f \<mapsto> py_get (dflt f)))"
      using True by simp
    also have "\<dots> = map_of (?ud fs) ++ ctx(fid f \<mapsto> py_get (dflt f))"
      by (rule Cons.IH)
    also have "\<dots> = map_of (?ud (f # fs)) ++ ctx"
      using True unfolding ud by (auto simp: map_add_def fun_eq_iff split: option.splits)
    finally show ?thesis .
  next
    case False
    have "seed (f # fs) ctx = seed fs ctx"
      using False by auto
    also have "\<dots> = map_of (?ud fs) ++ ctx"
      by (rule Cons.IH)
    also have "\<dots> = map_of (?ud (f # fs)) ++ ctx"
      using False unfolding ud by (auto simp: map_add_def fun_eq_iff split: option.splits)
    finally show ?thesis .
  qed
qed

lemma seed_keeps: "ctx k = Some v \<Longrightarrow> seed fs ctx k = Some v"
  by (simp add: seed_map_of map_add_def)

lemma seed_new:
  assumes "ctx k = None" and "seed fs ctx k = Some v"
  shows "\<exists>f \<in> set fs. is_user f \<and> fid f = k \<and> v = py_get (dflt f)"
proof -
  from assms have "map_of (map (\<lambda>f. (fid f, py_get (dflt f))) (filter is_user fs)) k = Some v"
    by (simp add: seed_map_of map_add_def)
  then have "(k, v) \<in> set (map (\<lambda>f. (fid f, py_get (dflt f))) (filter is_user fs))"
    by (rule map_of_SomeD)
  then show ?thesis by auto
qed

lemma seed_new_first:
  assumes "ctx k = None" and "seed fs ctx k = Some v"
  shows "\<exists>pre f post. fs = pre @ f # post \<and> is_user f \<and> fid f = k \<and>
           (\<forall>g \<in> set pre. \<not> (is_user g \<and> fid g = k)) \<and> v = py_get (dflt f)"
  using assms
proof (induction fs arbitrary: ctx)
  case Nil
  then show ?case by simp
next
  case (Cons f fs)
  show ?case
  proof (cases "is_user f \<and> fid f = k")
    case True
    with Cons.prems(1) have "seed (f # fs) ctx = seed fs (ctx(k \<mapsto> py_get (dflt f)))"
      by auto
    moreover have "seed fs (ctx(k \<mapsto> py_get (dflt f))) k = Some (py_get (dflt f))"
      by (rule seed_keeps) simp
    ultimately have "v = py_get (dflt f)" using Cons.prems(2) by simp
    with True have "f # fs = [] @ f # fs \<and> is_user f \<and> fid f = k \<and>
           (\<forall>g \<in> set []. \<not> (is_user g \<and> fid g = k)) \<and> v = py_get (dflt f)"
      by simp
    then show ?thesis by blast
  next
    case False
    let ?ctx' = "if is_user f \<and> ctx (fid f) = None then ctx(fid f \<mapsto> py_get (dflt f)) else ctx"
    have n: "?ctx' k = None" using False Cons.prems(1) by auto
    have s: "seed fs ?ctx' k = Some v" using Cons.prems(2) by simp
    from Cons.IH [OF n s] obtain pre g post where
      "fs = pre @ g # post" "is_user g" "fid g = k"
      "\<forall>x \<in> set pre. \<not> (is_user x \<and> fid x = k)" "v = py_get (dflt g)"
      by blast
    with False have "f # fs = (f # pre) @ g # post \<and> is_user g \<and> fid g = k \<and>
           (\<forall>x \<in> set (f # pre). \<not> (is_user x \<and> fid x = k)) \<and> v = py_get (dflt g)"
      by simp
    then show ?thesis by blast
  qed
qed

lemma seed_user_dom:
  assumes "f \<in> set fs" and "is_user f"
  shows "seed fs ctx (fid f) \<noteq> None"
proof -
  let ?ud = "map (\<lambda>f. (fid f, py_get (dflt f))) (filter is_user fs)"
  from assms have "fid f \<in> fst ` set ?ud" by force
  then have "map_of ?ud (fid f) \<noteq> None"
    by (simp add: map_of_eq_None_iff)
  then show ?thesis by (auto simp: seed_map_of map_add_def split: option.splits)
qed

section \<open>Facts about a pass and about the loop of passes\<close>

lemma eval_pass_no_calc:
  "\<forall>f \<in> set fs. \<not> is_calc f \<Longrightarrow> eval_pass engine symtable fs ctx changed = Inr (ctx, changed)"
  by (induction fs) auto

lemma eval_pass_flag:
  "eval_pass engine symtable fs ctx changed = Inr (ctx', changed') \<Longrightarrow>
     (changed \<longrightarrow> changed') \<and> (\<not> changed' \<longrightarrow> ctx' = ctx)"
proof (induction fs arbitrary: ctx changed)
  case Nil
  then show ?case by simp
next
  case (Cons f fs)
  then show ?case
    by (fastforce split: if_splits sum.splits)
qed

lemma eval_pass_dom:
  "eval_pass engine symtable fs ctx changed = Inr (ctx', changed') \<Longrightarrow> dom ctx \<subseteq> dom ctx'"
proof (induction fs arbitrary: ctx changed)
  case Nil
  then show ?case by simp
next
  case (Cons f fs)
  then show ?case
    by (fastforce split: if_splits sum.splits)
qed

lemma passes_count:
  "passes engine fs n symtable ctx = Inr (c, k) \<Longrightarrow> k \<le> n \<and> (0 < n \<longrightarrow> 0 < k)"
proof (induction n arbitrary: symtable ctx c k)
  case 0
  then show ?case by simp
next
  case (Suc n)
  then show ?case
    by (fastforce simp: Let_def split: sum.splits if_splits prod.splits)
qed

lemma passes_dom:
  "passes engine fs n symtable ctx = Inr (c, k) \<Longrightarrow> dom ctx \<subseteq> dom c"
proof (induction n arbitrary: symtable ctx c k)
  case 0
  then show ?case by simp
next
  case (Suc n)
  from Suc.prems obtain ctx' ch where p: "eval_pass engine (symtable ++ ctx) fs ctx False = Inr (ctx', ch)"
    by (auto simp: Let_def split: sum.splits)
  then have d: "dom ctx \<subseteq> dom ctx'" by (rule eval_pass_dom)
  show ?case
  proof (cases ch)
    case False
    with Suc.prems p have "c = ctx'" by (simp add: Let_def)
    with d show ?thesis by simp
  next
    case True
    with Suc.prems p obtain k' where "passes engine fs n (symtable ++ ctx) ctx' = Inr (c, k')"
      by (auto simp: Let_def split: sum.splits)
    then have "dom ctx' \<subseteq> dom c" by (rule Suc.IH)
    with d show ?thesis by blast
  qed
qed

lemma passes_fixed:
  "dom symtable \<subseteq> dom ctx \<Longrightarrow> passes engine fs n symtable ctx = Inr (c, k) \<Longrightarrow> k < n \<Longrightarrow>
     eval_pass engine c fs c False = Inr (c, False)"
proof (induction n arbitrary: symtable ctx c k)
  case 0
  then show ?case by simp
next
  case (Suc n)
  have s: "symtable ++ ctx = ctx" using Suc.prems(1) by (rule map_add_absorb)
  from Suc.prems(2) obtain ctx' ch where p: "eval_pass engine ctx fs ctx False = Inr (ctx', ch)"
    by (auto simp: Let_def s split: sum.splits)
  show ?case
  proof (cases ch)
    case False
    with p have "ctx' = ctx" using eval_pass_flag by blast
    moreover from Suc.prems(2) p False have "c = ctx'" by (simp add: Let_def s)
    ultimately show ?thesis using p False by simp
  next
    case True
    with Suc.prems(2) p obtain k' where q: "passes engine fs n ctx ctx' = Inr (c, k')" and k: "k = Suc k'"
      by (auto simp: Let_def s split: sum.splits)
    from p have "dom ctx \<subseteq> dom ctx'" by (rule eval_pass_dom)
    moreover from k Suc.prems(3) have "k' < n" by simp
    ultimately show ?thesis using q Suc.IH by blast
  qed
qed

lemma eval_pass_error:
  "eval_pass engine symtable fs ctx changed = Inl e \<Longrightarrow>
     \<exists>f \<in> set fs. is_calc f \<and> engine symtable (the (formula f)) = Inl e"
proof (induction fs arbitrary: ctx changed)
  case Nil
  then show ?case by simp
next
  case (Cons f fs)
  then show ?case
    by (fastforce split: if_splits sum.splits)
qed

lemma passes_error:
  "passes engine fs n symtable ctx = Inl e \<Longrightarrow>
     \<exists>f \<in> set fs. \<exists>s. is_calc f \<and> engine s (the (formula f)) = Inl e"
proof (induction n arbitrary: symtable ctx)
  case 0
  then show ?case by simp
next
  case (Suc n)
  show ?case
  proof (cases "eval_pass engine (symtable ++ ctx) fs ctx False")
    case (Inl e')
    with Suc.prems have "e' = e" by (simp add: Let_def)
    with eval_pass_error [OF Inl] show ?thesis by blast
  next
    case (Inr r)
    obtain ctx' ch where r: "r = (ctx', ch)" by (cases r)
    with Inr Suc.prems have "passes engine fs n (symtable ++ ctx) ctx' = Inl e"
      by (auto simp: Let_def split: if_splits sum.splits)
    then show ?thesis by (rule Suc.IH)
  qed
qed

lemma eval_pass_total:
  "\<forall>s fm. \<not> isl (engine s fm) \<Longrightarrow> \<not> isl (eval_pass engine symtable fs ctx changed)"
proof (induction fs arbitrary: ctx changed)
  case Nil
  then show ?case by simp
next
  case (Cons f fs)
  show ?case
  proof (cases "engine symtable (the (formula f))")
    case (Inl e)
    with Cons.prems show ?thesis by (metis isl_def)
  next
    case (Inr v)
    with Cons show ?thesis by simp
  qed
qed

lemma passes_total:
  "\<forall>s fm. \<not> isl (engine s fm) \<Longrightarrow> \<not> isl (passes engine fs n symtable ctx)"
proof (induction n arbitrary: symtable ctx)
  case 0
  then show ?case by simp
next
  case (Suc n)
  from Suc.prems have "\<not> isl (eval_pass engine (symtable ++ ctx) fs ctx False)"
    by (rule eval_pass_total)
  then obtain ctx' ch where p: "eval_pass engine (symtable ++ ctx) fs ctx False = Inr (ctx', ch)"
    by (cases "eval_pass engine (symtable ++ ctx) fs ctx False") auto
  from Suc have "\<not> isl (passes engine fs n (symtable ++ ctx) ctx')" by blast
  then show ?case using p by (auto simp: Let_def split: sum.splits)
qed




lemma seed_fixed:
  assumes "\<forall>f \<in> set fs. is_user f \<longrightarrow> c (fid f) \<noteq> None"
  shows "seed fs c = c"
  using assms by (induction fs) auto

section \<open>The two evaluators\<close>

lemma tr_eval_pass_eq: "tr_eval_pass engine symtable fs ctx changed = eval_pass engine symtable fs ctx changed"
  by (induction fs arbitrary: ctx changed) (auto simp: is_calc_def split: sum.splits)

lemma tr_passes_eq:
  "tr_passes engine fs n symtable ctx =
     (case passes engine fs n symtable ctx of Inl e \<Rightarrow> Inl e | Inr (c, k) \<Rightarrow> Inr c)"
  by (induction n arbitrary: symtable ctx) (auto simp: tr_eval_pass_eq Let_def split: sum.splits)

lemma tr_seed_eq: "\<forall>f \<in> set fs. source f \<noteq> None \<Longrightarrow> tr_seed fs ctx = seed fs ctx"
  by (induction fs arbitrary: ctx) (auto simp: tr_is_user_def is_user_def py_get_def)



lemma tr_is_user_eq: "source f \<noteq> None \<Longrightarrow> tr_is_user f = is_user f"
  by (auto simp: tr_is_user_def is_user_def py_get_def)

section \<open>Facts about the merge\<close>

lemma gmap_of_last:
  "gmap_of fs gmap i =
     (if filter (\<lambda>f. fid f = i) fs = [] then gmap i else Some (last (filter (\<lambda>f. fid f = i) fs)))"
  by (induction fs arbitrary: gmap) auto


lemma merge_loop_unknown:
  "\<forall>i \<in> set pre. gmap i \<noteq> None \<Longrightarrow> gmap j = None \<Longrightarrow>
   merge_loop gmap scenario (pre @ j # post) merged = Inl (KeyError j)"
  by (induction pre arbitrary: merged) auto

lemma gmap_known: "gmap_of fs Map.empty i \<noteq> None \<longleftrightarrow> i \<in> fid ` set fs"
  by (auto simp: gmap_of_last filter_empty_conv)

lemma first_unknown:
  "i \<in> set ids \<Longrightarrow> \<not> P i \<Longrightarrow> \<exists>pre j post. ids = pre @ j # post \<and> (\<forall>x \<in> set pre. P x) \<and> \<not> P j"
proof (induction ids)
  case Nil
  then show ?case by simp
next
  case (Cons a ids)
  show ?case
  proof (cases "P a")
    case False
    then have "a # ids = [] @ a # ids \<and> (\<forall>x \<in> set []. P x) \<and> \<not> P a" by simp
    then show ?thesis by blast
  next
    case True
    with Cons obtain pre j post where "ids = pre @ j # post" "\<forall>x \<in> set pre. P x" "\<not> P j"
      by auto
    with True have "a # ids = (a # pre) @ j # post \<and> (\<forall>x \<in> set (a # pre). P x) \<and> \<not> P j" by simp
    then show ?thesis by blast
  qed
qed


section \<open>Facts about the functions on a store\<close>

text \<open>What each loop writes to, and that on a store the functions compute what the
  functions on values compute (for the merge, when the references of the arguments are to
  objects allocated before the call).\<close>

lemma h_seed_frame:
  "next_addr (h_seed as c h) = next_addr h \<and>
   field_objs (h_seed as c h) = field_objs h \<and>
   list_objs (h_seed as c h) = list_objs h \<and>
   (\<forall>a. a \<noteq> c \<longrightarrow> dict_objs (h_seed as c h) a = dict_objs h a)"
  by (induction as arbitrary: h) (auto simp: dict_set_def)

lemma h_eval_pass_frame:
  "h_eval_pass engine symtable as c changed h = (r, h') \<Longrightarrow>
   next_addr h' = next_addr h \<and> field_objs h' = field_objs h \<and> list_objs h' = list_objs h \<and>
   (\<forall>a. a \<noteq> c \<longrightarrow> dict_objs h' a = dict_objs h a)"
proof (induction as arbitrary: h changed)
  case Nil
  then show ?case by simp
next
  case (Cons a as)
  show ?case
  proof (cases "is_calc (field_objs h a)")
    case False
    with Cons.prems have "h_eval_pass engine symtable as c changed h = (r, h')" by simp
    then show ?thesis by (rule Cons.IH)
  next
    case True
    show ?thesis
    proof (cases "engine symtable (the (formula (field_objs h a)))")
      case (Inl e)
      with True Cons.prems show ?thesis by simp
    next
      case (Inr v)
      show ?thesis
      proof (cases "py_eq (py_get (dict_objs h c (fid (field_objs h a)))) v")
        case True
        with \<open>is_calc (field_objs h a)\<close> Inr Cons.prems
        have "h_eval_pass engine symtable as c changed h = (r, h')" by simp
        then show ?thesis by (rule Cons.IH)
      next
        case False
        let ?h1 = "dict_set c (fid (field_objs h a)) v h"
        from False \<open>is_calc (field_objs h a)\<close> Inr Cons.prems
        have "h_eval_pass engine symtable as c True ?h1 = (r, h')" by simp
        from Cons.IH [OF this] show ?thesis by (simp add: dict_set_def)
      qed
    qed
  qed
qed



lemma h_apply_overrides_frame:
  "next_addr (h_apply_overrides b ov h) = next_addr h \<and>
   dict_objs (h_apply_overrides b ov h) = dict_objs h \<and>
   list_objs (h_apply_overrides b ov h) = list_objs h \<and>
   (\<forall>a. a \<noteq> b \<longrightarrow> field_objs (h_apply_overrides b ov h) a = field_objs h a) \<and>
   field_objs (h_apply_overrides b ov h) b = apply_overrides (field_objs h b) ov"
  by (simp add: h_apply_overrides_def apply_overrides_def field_update_def Let_def
      split: option.splits)

lemma h_merge_loop_frame:
  "h_merge_loop gmap scenario ids merged h = (r, h') \<Longrightarrow>
   next_addr h \<le> next_addr h' \<and> dict_objs h' = dict_objs h \<and>
   (\<forall>a < next_addr h. field_objs h' a = field_objs h a) \<and>
   (\<forall>a. a \<noteq> merged \<longrightarrow> list_objs h' a = list_objs h a)"
proof (induction ids arbitrary: h)
  case Nil
  then show ?case by simp
next
  case (Cons i ids)
  show ?case
  proof (cases "gmap i")
    case None
    with Cons.prems show ?thesis by simp
  next
    case (Some g)
    let ?base = "next_addr h"
    let ?h1 = "h\<lparr>field_objs := (field_objs h)(?base := field_objs h g), next_addr := Suc ?base\<rparr>"
    let ?h2 = "h_apply_overrides ?base (override_for scenario i) ?h1"
    let ?h3 = "list_extend merged [?base] ?h2"
    from Cons.prems Some have "h_merge_loop gmap scenario ids merged ?h3 = (r, h')"
      by (simp add: new_field_def Let_def)
    note ih = Cons.IH [OF this]
    note f2 = h_apply_overrides_frame [of ?base "override_for scenario i" ?h1]
    have fr: "next_addr ?h3 = Suc (next_addr h) \<and> dict_objs ?h3 = dict_objs h \<and>
          (\<forall>a < next_addr h. field_objs ?h3 a = field_objs h a) \<and>
          (\<forall>a. a \<noteq> merged \<longrightarrow> list_objs ?h3 a = list_objs h a)"
      using f2 by (simp add: list_extend_def)
    from ih fr show ?thesis by auto
  qed
qed



lemma h_seed_refines:
  "dict_objs (h_seed as c h) c = seed (map (field_objs h) as) (dict_objs h c)"
proof (induction as arbitrary: h)
  case Nil
  show ?case by simp
next
  case (Cons a as)
  let ?f = "field_objs h a"
  show ?case
  proof (cases "is_user ?f \<and> dict_objs h c (fid ?f) = None")
    case True
    let ?h1 = "dict_set c (fid ?f) (py_get (dflt ?f)) h"
    have "dict_objs (h_seed (a # as) c h) c = dict_objs (h_seed as c ?h1) c"
      using True by simp
    also have "\<dots> = seed (map (field_objs ?h1) as) (dict_objs ?h1 c)" by (rule Cons.IH)
    also have "\<dots> = seed (map (field_objs h) (a # as)) (dict_objs h c)"
      using True by (simp add: dict_set_def)
    finally show ?thesis .
  next
    case False
    have "dict_objs (h_seed (a # as) c h) c = dict_objs (h_seed as c h) c"
      using False by auto
    also have "\<dots> = seed (map (field_objs h) as) (dict_objs h c)" by (rule Cons.IH)
    also have "\<dots> = seed (map (field_objs h) (a # as)) (dict_objs h c)"
      using False by auto
    finally show ?thesis .
  qed
qed

lemma h_eval_pass_refines:
  "h_eval_pass engine symtable as c changed h = (r, h') \<Longrightarrow>
   (case eval_pass engine symtable (map (field_objs h) as) (dict_objs h c) changed of
      Inl e \<Rightarrow> r = Inl e
    | Inr (ctx', changed') \<Rightarrow> r = Inr changed' \<and> dict_objs h' c = ctx')"
proof (induction as arbitrary: h changed)
  case Nil
  then show ?case by auto
next
  case (Cons a as)
  let ?f = "field_objs h a"
  show ?case
  proof (cases "is_calc ?f")
    case False
    with Cons.prems have "h_eval_pass engine symtable as c changed h = (r, h')" by simp
    from Cons.IH [OF this] False show ?thesis by simp
  next
    case True
    show ?thesis
    proof (cases "engine symtable (the (formula ?f))")
      case (Inl e)
      with True Cons.prems show ?thesis by simp
    next
      case (Inr v)
      show ?thesis
      proof (cases "py_eq (py_get (dict_objs h c (fid ?f))) v")
        case eq: True
        with True Inr Cons.prems
        have "h_eval_pass engine symtable as c changed h = (r, h')" by simp
        from Cons.IH [OF this] True Inr eq show ?thesis by simp
      next
        case ne: False
        let ?h1 = "dict_set c (fid ?f) v h"
        from ne True Inr Cons.prems
        have "h_eval_pass engine symtable as c True ?h1 = (r, h')" by simp
        note ih = Cons.IH [OF this]
        have d: "dict_objs ?h1 c = (dict_objs h c)(fid ?f \<mapsto> v)"
          by (simp add: dict_set_def)
        have f: "field_objs ?h1 = field_objs h"
          by (simp add: dict_set_def)
        from ih have
          "case eval_pass engine symtable (map (field_objs h) as) ((dict_objs h c)(fid ?f \<mapsto> v)) True of
             Inl e \<Rightarrow> r = Inl e
           | Inr (ctx', changed') \<Rightarrow> r = Inr changed' \<and> dict_objs h' c = ctx'"
          unfolding d f .
        with True Inr ne show ?thesis by simp
      qed
    qed
  qed
qed

lemma h_passes_refines:
  "h_passes engine fr n symtable c h = (r, h') \<Longrightarrow>
   (case passes engine (map (field_objs h) (list_objs h fr)) n symtable (dict_objs h c) of
      Inl e \<Rightarrow> r = Inl e
    | Inr (ctx', k) \<Rightarrow> r = Inr () \<and> dict_objs h' c = ctx')"
proof (induction n arbitrary: h symtable)
  case 0
  then show ?case by auto
next
  case (Suc n)
  let ?sym = "symtable ++ dict_objs h c"
  let ?fs = "map (field_objs h) (list_objs h fr)"
  obtain r1 h1 where p: "h_eval_pass engine ?sym (list_objs h fr) c False h = (r1, h1)"
    by (cases "h_eval_pass engine ?sym (list_objs h fr) c False h")
  note f1 = h_eval_pass_frame [OF p]
  note e1 = h_eval_pass_refines [OF p]
  show ?case
  proof (cases "eval_pass engine ?sym ?fs (dict_objs h c) False")
    case (Inl e)
    with e1 have "r1 = Inl e" by simp
    with Suc.prems p have "r = Inl e" by (simp add: Let_def)
    with Inl show ?thesis by (simp add: Let_def)
  next
    case (Inr res)
    obtain ctx' ch where res: "res = (ctx', ch)" by (cases res)
    with Inr e1 have r1: "r1 = Inr ch" and d1: "dict_objs h1 c = ctx'" by simp_all
    show ?thesis
    proof (cases ch)
      case False
      with r1 Suc.prems p have "r = Inr ()" "h' = h1" by (simp_all add: Let_def)
      with d1 Inr res False show ?thesis by (simp add: Let_def)
    next
      case True
      with r1 Suc.prems p have "h_passes engine fr n ?sym c h1 = (r, h')"
        by (simp add: Let_def)
      from Suc.IH [OF this] f1 d1
      have "case passes engine ?fs n ?sym ctx' of
              Inl e \<Rightarrow> r = Inl e
            | Inr (ctx'', k) \<Rightarrow> r = Inr () \<and> dict_objs h' c = ctx''"
        by simp
      with Inr res True show ?thesis by (auto simp: Let_def split: sum.splits)
    qed
  qed
qed

lemma h_compute_values_refines:
  assumes "h_compute_values engine fr ir h = (r, h')"
  shows "case compute_values engine (map (field_objs h) (list_objs h fr)) (dict_objs h ir) of
           Inl e \<Rightarrow> r = Inl e
         | Inr ctx \<Rightarrow> r = Inr (next_addr h) \<and> dict_objs h' (next_addr h) = ctx"
proof -
  let ?c = "next_addr h"
  let ?h0 = "h\<lparr>dict_objs := (dict_objs h)(?c := dict_objs h ir), next_addr := Suc ?c\<rparr>"
  let ?h1 = "h_seed (list_objs ?h0 fr) ?c ?h0"
  let ?fs = "map (field_objs h) (list_objs h fr)"
  obtain r2 h2 where p: "h_passes engine fr 8 Map.empty ?c ?h1 = (r2, h2)"
    by (cases "h_passes engine fr 8 Map.empty ?c ?h1")
  from assms p have hh: "h' = h2" and rr: "r = (case r2 of Inl e \<Rightarrow> Inl e | Inr u \<Rightarrow> Inr ?c)"
    by (auto simp: h_compute_values_def new_dict_def Let_def split: sum.splits)
  note f1 = h_seed_frame [of "list_objs ?h0 fr" ?c ?h0]
  have s1: "dict_objs ?h1 ?c = seed ?fs (dict_objs h ir)"
    using h_seed_refines [of "list_objs ?h0 fr" ?c ?h0] by simp
  have fs1: "map (field_objs ?h1) (list_objs ?h1 fr) = ?fs" using f1 by simp
  from h_passes_refines [OF p] s1 fs1
  have "case passes engine ?fs 8 Map.empty (seed ?fs (dict_objs h ir)) of
          Inl e \<Rightarrow> r2 = Inl e
        | Inr (ctx', k) \<Rightarrow> r2 = Inr () \<and> dict_objs h2 ?c = ctx'"
    by simp
  with hh rr show ?thesis
    by (auto simp: compute_values_def compute_trace_def split: sum.splits)
qed


lemma h_gmap_of_refines:
  "map_option (field_objs h) (h_gmap_of h as gm i) =
     gmap_of (map (field_objs h) as) (\<lambda>k. map_option (field_objs h) (gm k)) i"
proof (induction as arbitrary: gm)
  case Nil
  show ?case by simp
next
  case (Cons a as)
  let ?k = "fid (field_objs h a)"
  have eq: "(\<lambda>k. map_option (field_objs h) ((gm(?k \<mapsto> a)) k)) =
        (\<lambda>k. map_option (field_objs h) (gm k))(?k \<mapsto> field_objs h a)"
    by (auto simp: fun_eq_iff)
  have "map_option (field_objs h) (h_gmap_of h (a # as) gm i) =
        map_option (field_objs h) (h_gmap_of h as (gm(?k \<mapsto> a)) i)"
    by simp
  also have "\<dots> = gmap_of (map (field_objs h) as)
                      (\<lambda>k. map_option (field_objs h) ((gm(?k \<mapsto> a)) k)) i"
    by (rule Cons.IH)
  also have "\<dots> = gmap_of (map (field_objs h) as)
                      ((\<lambda>k. map_option (field_objs h) (gm k))(?k \<mapsto> field_objs h a)) i"
    by (simp only: eq)
  also have "\<dots> = gmap_of (map (field_objs h) (a # as)) (\<lambda>k. map_option (field_objs h) (gm k)) i"
    by simp
  finally show ?case .
qed

lemma h_gmap_of_range:
  "h_gmap_of h as gm i = Some g \<Longrightarrow> g \<in> set as \<or> gm i = Some g"
proof (induction as arbitrary: gm)
  case Nil
  then show ?case by simp
next
  case (Cons a as)
  from Cons.IH [OF Cons.prems [simplified]] show ?case
    by (auto split: if_splits)
qed

lemma merge_loop_cong:
  "\<forall>i. override_for s1 i = override_for s2 i \<Longrightarrow>
   merge_loop gmap s1 ids acc = merge_loop gmap s2 ids acc"
  by (induction ids arbitrary: acc) (auto split: option.splits)


lemma h_merge_loop_refines:
  assumes "\<forall>i g. gmap i = Some g \<longrightarrow> g < next_addr h"
    and "\<forall>b \<in> set (list_objs h merged). b < next_addr h"
    and "h_merge_loop gmap scenario ids merged h = (r, h')"
  shows "case merge_loop (\<lambda>k. map_option (field_objs h) (gmap k)) scenario ids
                (map (field_objs h) (list_objs h merged)) of
           Inl e \<Rightarrow> r = Inl e
         | Inr res \<Rightarrow> r = Inr () \<and> map (field_objs h') (list_objs h' merged) = res"
  using assms
proof (induction ids arbitrary: h)
  case Nil
  then show ?case by auto
next
  case (Cons i ids)
  show ?case
  proof (cases "gmap i")
    case None
    with Cons.prems show ?thesis by simp
  next
    case (Some g)
    let ?base = "next_addr h"
    let ?ov = "override_for scenario i"
    let ?h1 = "h\<lparr>field_objs := (field_objs h)(?base := field_objs h g), next_addr := Suc ?base\<rparr>"
    let ?h2 = "h_apply_overrides ?base ?ov ?h1"
    let ?h3 = "list_extend merged [?base] ?h2"
    from Cons.prems(3) Some have run: "h_merge_loop gmap scenario ids merged ?h3 = (r, h')"
      by (simp add: new_field_def Let_def)
    note f2 = h_apply_overrides_frame [of ?base ?ov ?h1]
    have n3: "next_addr ?h3 = Suc ?base"
      using f2 by (simp add: list_extend_def)
    have l3: "list_objs ?h3 merged = list_objs h merged @ [?base]"
      using f2 by (simp add: list_extend_def)
    have fb: "field_objs ?h3 ?base = apply_overrides (field_objs h g) ?ov"
      using f2 by (simp add: list_extend_def)
    have fo: "field_objs ?h3 a = field_objs h a" if "a < ?base" for a
      using f2 that by (simp add: list_extend_def)
    have a1: "\<forall>i g. gmap i = Some g \<longrightarrow> g < next_addr ?h3"
      using Cons.prems(1) unfolding n3 by (simp add: less_Suc_eq)
    have a2: "\<forall>b \<in> set (list_objs ?h3 merged). b < next_addr ?h3"
      using Cons.prems(2) unfolding n3 l3 by (simp add: less_Suc_eq)
    note ih = Cons.IH [OF a1 a2 run]
    have gm: "(\<lambda>k. map_option (field_objs ?h3) (gmap k)) = (\<lambda>k. map_option (field_objs h) (gmap k))"
    proof
      fix k
      show "map_option (field_objs ?h3) (gmap k) = map_option (field_objs h) (gmap k)"
      proof (cases "gmap k")
        case None
        then show ?thesis by simp
      next
        case (Some t)
        with Cons.prems(1) have "t < ?base" by simp
        with Some fo show ?thesis by simp
      qed
    qed
    have "map (field_objs ?h3) (list_objs h merged) = map (field_objs h) (list_objs h merged)"
      using Cons.prems(2) fo by simp
    then have ml: "map (field_objs ?h3) (list_objs ?h3 merged) =
          map (field_objs h) (list_objs h merged) @ [apply_overrides (field_objs h g) ?ov]"
      unfolding l3 using fb by simp
    from ih have "case merge_loop (\<lambda>k. map_option (field_objs h) (gmap k)) scenario ids
                (map (field_objs h) (list_objs h merged) @ [apply_overrides (field_objs h g) ?ov]) of
           Inl e \<Rightarrow> r = Inl e
         | Inr res \<Rightarrow> r = Inr () \<and> map (field_objs h') (list_objs h' merged) = res"
      unfolding gm ml .
    with Some show ?thesis by simp
  qed
qed

lemma h_merge_fields_refines:
  assumes cat: "\<forall>a. globals_fields_ref globals = Some a \<longrightarrow>
                  (\<forall>b \<in> set (list_objs h a). b < next_addr h)"
    and loc: "\<forall>a. scenario_fields_ref scenario = Some a \<longrightarrow>
                  a < next_addr h \<and> (\<forall>b \<in> set (list_objs h a). b < next_addr h)"
    and run: "h_merge_fields globals scenario h = (r, h')"
  shows "case merge_fields (globals_at h globals) (scenario_at h scenario) of
           Inl e \<Rightarrow> r = Inl e
         | Inr res \<Rightarrow> r = Inr (next_addr h) \<and>
                      map (field_objs h') (list_objs h' (next_addr h)) = res"
proof -
  let ?m = "next_addr h"
  let ?cat = "case globals_fields_ref globals of None \<Rightarrow> [] | Some a \<Rightarrow> list_objs h a"
  let ?h0 = "h\<lparr>list_objs := (list_objs h)(?m := []), next_addr := Suc ?m\<rparr>"
  let ?gmap = "h_gmap_of h ?cat Map.empty"
  let ?sv = "scenario_values scenario"
  obtain r1 h1 where p: "h_merge_loop ?gmap ?sv (used_ids ?sv) ?m ?h0 = (r1, h1)"
    by (cases "h_merge_loop ?gmap ?sv (used_ids ?sv) ?m ?h0")
  have catb: "\<forall>b \<in> set ?cat. b < ?m"
    using cat by (cases "globals_fields_ref globals") simp_all
  have a1: "\<forall>i g. ?gmap i = Some g \<longrightarrow> g < next_addr ?h0"
  proof (intro allI impI)
    fix i g
    assume "?gmap i = Some g"
    from h_gmap_of_range [OF this] have "g \<in> set ?cat" by simp
    with catb show "g < next_addr ?h0" by (simp add: less_Suc_eq)
  qed
  have a2: "\<forall>b \<in> set (list_objs ?h0 ?m). b < next_addr ?h0" by simp
  note ref = h_merge_loop_refines [OF a1 a2 p]
  note frm = h_merge_loop_frame [OF p]
  have gm: "(\<lambda>k. map_option (field_objs ?h0) (?gmap k)) = gmap_of (catalogue (globals_at h globals)) Map.empty"
  proof
    fix k
    have "catalogue (globals_at h globals) = map (field_objs h) ?cat"
      by (simp add: catalogue_def globals_at_def split: option.splits)
    then show "map_option (field_objs ?h0) (?gmap k) = gmap_of (catalogue (globals_at h globals)) Map.empty k"
      using h_gmap_of_refines [of h ?cat Map.empty k] by simp
  qed
  have ov: "\<forall>i. override_for ?sv i = override_for (scenario_at h scenario) i"
    by (simp add: override_for_def scenario_at_def)
  have ui: "used_ids (scenario_at h scenario) = used_ids ?sv"
    by (simp add: used_ids_def scenario_at_def)
  from ref have ref': "case merge_loop (gmap_of (catalogue (globals_at h globals)) Map.empty)
                (scenario_at h scenario) (used_ids (scenario_at h scenario)) [] of
           Inl e \<Rightarrow> r1 = Inl e
         | Inr res \<Rightarrow> r1 = Inr () \<and> map (field_objs h1) (list_objs h1 ?m) = res"
    unfolding gm ui using merge_loop_cong [OF ov] by simp
  show ?thesis
  proof (cases r1)
    case (Inl e)
    with run p have "r = Inl e"
      by (auto simp: h_merge_fields_def new_list_def Let_def)
    with ref' Inl show ?thesis
      by (auto simp: merge_fields_def split: sum.splits)
  next
    case (Inr u)
    let ?loc = "case scenario_fields_ref scenario of None \<Rightarrow> [] | Some a \<Rightarrow> list_objs h1 a"
    from Inr run p have hh: "h' = list_extend ?m ?loc h1" and rr: "r = Inr ?m"
      by (auto simp: h_merge_fields_def new_list_def Let_def)
    have loc1: "?loc = (case scenario_fields_ref scenario of None \<Rightarrow> [] | Some a \<Rightarrow> list_objs h a)"
    proof (cases "scenario_fields_ref scenario")
      case None
      then show ?thesis by simp
    next
      case (Some a)
      with loc have "a \<noteq> ?m" by auto
      with frm have "list_objs h1 a = list_objs ?h0 a" by simp
      with Some \<open>a \<noteq> ?m\<close> show ?thesis by simp
    qed
    have locb: "\<forall>b \<in> set ?loc. b < ?m"
      unfolding loc1 using loc by (cases "scenario_fields_ref scenario") simp_all
    have fo: "field_objs h1 b = field_objs h b" if "b < ?m" for b
      using frm that by simp
    have lf: "local_fields (scenario_at h scenario) = map (field_objs h1) ?loc"
    proof -
      have "map (field_objs h1) ?loc = map (field_objs h) ?loc"
        using locb fo by simp
      then show ?thesis
        unfolding loc1 by (simp add: local_fields_def scenario_at_def split: option.splits)
    qed
    have "map (field_objs h') (list_objs h' ?m) =
            map (field_objs h1) (list_objs h1 ?m) @ map (field_objs h1) ?loc"
      unfolding hh by (simp add: list_extend_def)
    with ref' Inr rr lf show ?thesis
      by (auto simp: merge_fields_def split: sum.splits)
  qed
qed

section \<open>Seeding and inputs\<close>

text \<open>
  C9. Inputs have priority over defaults. Every id of the inputs mapping keeps its input
  value through the seeding loop. An id that was not an input and has a value after
  seeding got it as the default of a user field of that id, the first one in the list: a
  later user field of the same id finds the id in the context and writes nothing. And an
  id that is neither an input nor the id of a user field has no value after seeding.
\<close>

theorem seed_inputs_priority:
  "(\<forall>k v. inputs k = Some v \<longrightarrow> seed fs inputs k = Some v) \<and>
   (\<forall>k v. inputs k = None \<longrightarrow> seed fs inputs k = Some v \<longrightarrow>
      (\<exists>pre f post. fs = pre @ f # post \<and> is_user f \<and> fid f = k \<and>
         (\<forall>g \<in> set pre. \<not> (is_user g \<and> fid g = k)) \<and> v = py_get (dflt f))) \<and>
   (\<forall>k. inputs k = None \<longrightarrow> (\<forall>f \<in> set fs. \<not> (is_user f \<and> fid f = k)) \<longrightarrow>
      seed fs inputs k = None)"
proof (intro conjI allI impI)
  fix k v
  assume "inputs k = Some v"
  then show "seed fs inputs k = Some v" by (rule seed_keeps)
next
  fix k v
  assume "inputs k = None" "seed fs inputs k = Some v"
  then show "\<exists>pre f post. fs = pre @ f # post \<and> is_user f \<and> fid f = k \<and>
         (\<forall>g \<in> set pre. \<not> (is_user g \<and> fid g = k)) \<and> v = py_get (dflt f)"
    by (rule seed_new_first)
next
  fix k
  assume n: "inputs k = None" and u: "\<forall>f \<in> set fs. \<not> (is_user f \<and> fid f = k)"
  show "seed fs inputs k = None"
  proof (cases "seed fs inputs k")
    case None
    then show ?thesis .
  next
    case (Some v)
    from seed_new [OF n Some] u show ?thesis by blast
  qed
qed

theorem seed_inputs_priority_witness:
  "seed [user_field ''principal'' (PInt 1000000), user_field ''months'' (PInt 12)]
        [''months'' \<mapsto> PInt 24] ''months'' = Some (PInt 24) \<and>
   seed [user_field ''principal'' (PInt 1000000), user_field ''months'' (PInt 12)]
        [''months'' \<mapsto> PInt 24] ''rate'' = None \<and>
   (\<exists>pre f post.
      [user_field ''principal'' (PInt 1000000), user_field ''months'' (PInt 12)] = pre @ f # post \<and>
      is_user f \<and> fid f = ''principal'' \<and> PInt 1000000 = py_get (dflt f))"
proof -
  let ?fs = "[user_field ''principal'' (PInt 1000000), user_field ''months'' (PInt 12)]"
  let ?inp = "[''months'' \<mapsto> PInt 24]"
  note t = seed_inputs_priority [of ?inp ?fs]
  have a: "?inp ''months'' = Some (PInt 24)" by simp
  have b: "?inp ''principal'' = None" by simp
  have c: "seed ?fs ?inp ''principal'' = Some (PInt 1000000)"
    by (simp add: user_field_def is_user_def py_get_def)
  have d: "?inp ''rate'' = None" by simp
  have e: "\<forall>f \<in> set ?fs. \<not> (is_user f \<and> fid f = ''rate'')"
    by (simp add: user_field_def)
  from t a have 1: "seed ?fs ?inp ''months'' = Some (PInt 24)" by blast
  from t d e have 2: "seed ?fs ?inp ''rate'' = None" by blast
  from t b c have 3: "\<exists>pre f post. ?fs = pre @ f # post \<and>
      is_user f \<and> fid f = ''principal'' \<and> PInt 1000000 = py_get (dflt f)" by blast
  from 1 2 3 show ?thesis by (intro conjI)
qed

text \<open>
  C5. A field list with no field of source \<^verbatim>\<open>"calc"\<close>: the loop stops after its first pass,
  and the context returned is the seeded one, that is the inputs, and under them, for
  the ids that are not inputs, the default of the (first) user field of that id.
\<close>

theorem no_calc_returns_seeded:
  assumes "\<forall>f \<in> set fs. source f \<noteq> Some (PStr ''calc'')"
  shows "compute_trace engine fs inputs = Inr (seed fs inputs, 1) \<and>
         compute_values engine fs inputs =
           Inr (map_of (map (\<lambda>f. (fid f, py_get (dflt f))) (filter is_user fs)) ++ inputs)"
proof -
  have "\<forall>f \<in> set fs. \<not> is_calc f"
    using assms by (auto simp: is_calc_def py_eq_PStr py_get_def split: option.splits)
  then have p: "eval_pass engine (Map.empty ++ seed fs inputs) fs (seed fs inputs) False =
                  Inr (seed fs inputs, False)"
    by (rule eval_pass_no_calc)
  have "passes engine fs (Suc 7) Map.empty (seed fs inputs) = Inr (seed fs inputs, 1)"
    unfolding passes.simps Let_def p by simp
  then have t: "compute_trace engine fs inputs = Inr (seed fs inputs, 1)"
    by (simp add: compute_trace_def)
  then show ?thesis
    by (simp add: compute_values_def seed_map_of)
qed

theorem no_calc_returns_seeded_witness:
  "compute_trace sample_engine
     [user_field ''principal'' (PInt 1000000), user_field ''months'' (PInt 12)]
     [''months'' \<mapsto> PInt 24] =
   Inr ([''months'' \<mapsto> PInt 24, ''principal'' \<mapsto> PInt 1000000], 1)"
proof -
  let ?fs = "[user_field ''principal'' (PInt 1000000), user_field ''months'' (PInt 12)]"
  have h: "\<forall>f \<in> set ?fs. source f \<noteq> Some (PStr ''calc'')"
    by (simp add: user_field_def)
  have s: "seed ?fs [''months'' \<mapsto> PInt 24] = [''months'' \<mapsto> PInt 24, ''principal'' \<mapsto> PInt 1000000]"
    by (simp add: user_field_def is_user_def py_get_def)
  from no_calc_returns_seeded [OF h, of sample_engine "[''months'' \<mapsto> PInt 24]"] s
  show ?thesis by simp
qed

section \<open>Convergence detection\<close>

text \<open>
  C2 (as amended). The comparison is \<^verbatim>\<open>ctx.get(field["id"]) != value\<close>, and \<^verbatim>\<open>ctx.get\<close> gives
  \<^verbatim>\<open>None\<close> for an id that is not a key. So for a calc field whose id is not yet a key of the
  context, a computed value other than \<^verbatim>\<open>None\<close> is written and marks the pass as changed,
  while a computed \<^verbatim>\<open>None\<close> is not written and does not mark the pass: the loop goes on
  with the context and the flag it had.
\<close>

theorem absent_id_compared_as_None:
  assumes "is_calc f" and "ctx (fid f) = None" and "engine symtable (the (formula f)) = Inr v"
  shows "eval_pass engine symtable (f # fs) ctx changed =
           (if v = PNone then eval_pass engine symtable fs ctx changed
            else eval_pass engine symtable fs (ctx(fid f \<mapsto> v)) True)"
  using assms by (simp add: py_get_def py_eq_PNone)

theorem absent_id_compared_as_None_witness:
  "eval_pass sample_engine Map.empty [calc_field ''x'' ''7''] Map.empty False =
     Inr ([''x'' \<mapsto> PInt 7], True)"
proof -
  have a: "is_calc (calc_field ''x'' ''7'')"
    by (simp add: is_calc_def calc_field_def py_get_def)
  have b: "Map.empty (fid (calc_field ''x'' ''7'')) = None" by simp
  have c: "sample_engine Map.empty (the (formula (calc_field ''x'' ''7''))) = Inr (PInt 7)"
    by (simp add: sample_engine_def calc_field_def)
  from absent_id_compared_as_None
         [where f = "calc_field ''x'' ''7''" and ctx = Map.empty and engine = sample_engine
            and symtable = Map.empty and v = "PInt 7" and fs = "[]" and changed = False]
       a b c
  show ?thesis by (simp add: calc_field_def)
qed

text \<open>
  The claim as the specification words it fails: a calc field \<^verbatim>\<open>x\<close> with formula \<^verbatim>\<open>None\<close>
  and no entry in the context. Its first evaluation gives \<^verbatim>\<open>None\<close>; nothing is written, the
  pass is not marked, and the context returned after that single pass has no key \<^verbatim>\<open>x\<close>.
\<close>

theorem none_result_not_written:
  "eval_pass sample_engine Map.empty [calc_field ''x'' ''None''] Map.empty False =
     Inr (Map.empty, False) \<and>
   compute_trace sample_engine [calc_field ''x'' ''None''] Map.empty = Inr (Map.empty, 1)"
  by (simp add: compute_trace_def eval_nat_numeral sample_engine_def calc_field_def
      is_calc_def is_user_def py_get_def)

section \<open>The pass budget\<close>

text \<open>
  C6. The loop is bounded by \<^verbatim>\<open>range(8)\<close>. When evaluation returns a context, it ran
  between one and eight passes, and if it ran fewer than eight, a further pass over the
  returned context changes nothing (a fixed point was reached). It raises only what the
  engine raised on the formula of a calc field, so exhausting the budget is not an error:
  with an engine that never raises, evaluation always returns a context. At the start of
  any pass, a pass that changes nothing ends the loop at once with that pass's context;
  and the last pass allowed returns its context even though it changed it.
\<close>

theorem pass_budget:
  "(\<forall>c k. compute_trace engine fs inputs = Inr (c, k) \<longrightarrow>
      1 \<le> k \<and> k \<le> 8 \<and> (k < 8 \<longrightarrow> eval_pass engine c fs c False = Inr (c, False))) \<and>
   (\<forall>e. compute_trace engine fs inputs = Inl e \<longrightarrow>
      (\<exists>f \<in> set fs. \<exists>s. is_calc f \<and> engine s (the (formula f)) = Inl e)) \<and>
   ((\<forall>s fm. \<not> isl (engine s fm)) \<longrightarrow> (\<exists>c k. compute_trace engine fs inputs = Inr (c, k))) \<and>
   (\<forall>n symtable ctx c. eval_pass engine (symtable ++ ctx) fs ctx False = Inr (c, False) \<longrightarrow>
      passes engine fs (Suc n) symtable ctx = Inr (c, 1)) \<and>
   (\<forall>symtable ctx c. eval_pass engine (symtable ++ ctx) fs ctx False = Inr (c, True) \<longrightarrow>
      passes engine fs (Suc 0) symtable ctx = Inr (c, 1))"
proof (intro conjI allI impI)
  fix c k
  assume t: "compute_trace engine fs inputs = Inr (c, k)"
  then have p: "passes engine fs 8 Map.empty (seed fs inputs) = Inr (c, k)"
    by (simp add: compute_trace_def)
  from passes_count [OF p] show "1 \<le> k" and "k \<le> 8" by simp_all
  assume "k < 8"
  with passes_fixed [OF _ p] show "eval_pass engine c fs c False = Inr (c, False)" by simp
next
  fix e
  assume "compute_trace engine fs inputs = Inl e"
  then show "\<exists>f \<in> set fs. \<exists>s. is_calc f \<and> engine s (the (formula f)) = Inl e"
    unfolding compute_trace_def by (rule passes_error)
next
  assume "\<forall>s fm. \<not> isl (engine s fm)"
  then have "\<not> isl (compute_trace engine fs inputs)"
    unfolding compute_trace_def by (rule passes_total)
  then show "\<exists>c k. compute_trace engine fs inputs = Inr (c, k)"
    by (cases "compute_trace engine fs inputs") auto
next
  fix n symtable ctx c
  assume "eval_pass engine (symtable ++ ctx) fs ctx False = Inr (c, False)"
  then show "passes engine fs (Suc n) symtable ctx = Inr (c, 1)"
    by (simp add: Let_def)
next
  fix symtable ctx c
  assume "eval_pass engine (symtable ++ ctx) fs ctx False = Inr (c, True)"
  then show "passes engine fs (Suc 0) symtable ctx = Inr (c, 1)"
    by (simp add: Let_def)
qed

theorem pass_budget_witness:
  "compute_trace sample_engine [calc_field ''a'' ''a + 1''] [''a'' \<mapsto> PInt 0] =
     Inr ([''a'' \<mapsto> PInt 8], 8) \<and>
   eval_pass sample_engine [''x'' \<mapsto> PInt 7] [calc_field ''x'' ''7''] [''x'' \<mapsto> PInt 7] False =
     Inr ([''x'' \<mapsto> PInt 7], False) \<and>
   (\<exists>c k. compute_trace ((\<lambda>s fm. Inr (PInt 7)) :: py_exn engine) [calc_field ''x'' ''7''] Map.empty =
      Inr (c, k))"
proof -
  have a: "compute_trace sample_engine [calc_field ''a'' ''a + 1''] [''a'' \<mapsto> PInt 0] =
             Inr ([''a'' \<mapsto> PInt 8], 8)"
    by (simp add: compute_trace_def eval_nat_numeral sample_engine_def calc_field_def
        is_calc_def is_user_def py_get_def)
  have b: "compute_trace sample_engine [calc_field ''x'' ''7''] Map.empty =
             Inr ([''x'' \<mapsto> PInt 7], 2)"
    by (simp add: compute_trace_def eval_nat_numeral sample_engine_def calc_field_def
        is_calc_def is_user_def py_get_def)
  have c: "\<forall>s fm. \<not> isl (((\<lambda>s fm. Inr (PInt 7)) :: py_exn engine) s fm)" by simp
  have x: "eval_pass sample_engine [''x'' \<mapsto> PInt 7] [calc_field ''x'' ''7''] [''x'' \<mapsto> PInt 7] False =
          Inr ([''x'' \<mapsto> PInt 7], False)"
    using pass_budget [of sample_engine "[calc_field ''x'' ''7'']" Map.empty] b
    by (simp del: eval_pass.simps)
  have y: "\<exists>c k. compute_trace ((\<lambda>s fm. Inr (PInt 7)) :: py_exn engine) [calc_field ''x'' ''7''] Map.empty =
      Inr (c, k)"
    using pass_budget [of "(\<lambda>s fm. Inr (PInt 7)) :: py_exn engine" "[calc_field ''x'' ''7'']" Map.empty] c
    by blast
  from a x y show ?thesis by (intro conjI)
qed


section \<open>Exceptions of the formula engine\<close>




section \<open>Running the evaluator again on its result\<close>

text \<open>
  C7 (as amended). When the evaluation returned a context that a pass leaves as it is,
  which is the case whenever it stopped before the eighth pass, evaluating the same
  field list with that context as inputs returns the same context, after one pass.
\<close>

theorem rerun_on_fixed_point:
  assumes "compute_trace engine fs inputs = Inr (c, k)"
    and "k < 8 \<or> eval_pass engine c fs c False = Inr (c, False)"
  shows "compute_trace engine fs c = Inr (c, 1) \<and> compute_values engine fs c = Inr c"
proof -
  from assms(1) have p: "passes engine fs 8 Map.empty (seed fs inputs) = Inr (c, k)"
    by (simp add: compute_trace_def)
  have fx: "eval_pass engine c fs c False = Inr (c, False)"
    using assms(2) passes_fixed [OF _ p] by auto
  have d: "dom (seed fs inputs) \<subseteq> dom c" using p by (rule passes_dom)
  have "\<forall>f \<in> set fs. is_user f \<longrightarrow> c (fid f) \<noteq> None"
  proof (intro ballI impI)
    fix f
    assume "f \<in> set fs" "is_user f"
    then have "seed fs inputs (fid f) \<noteq> None" by (rule seed_user_dom)
    then have "fid f \<in> dom (seed fs inputs)" by (simp add: domIff)
    with d have "fid f \<in> dom c" by blast
    then show "c (fid f) \<noteq> None" by (simp add: domIff)
  qed
  then have s: "seed fs c = c" by (rule seed_fixed)
  have "passes engine fs (Suc n) Map.empty c = Inr (c, 1)" for n
    using fx by (simp add: Let_def)
  from this [of 7] have "compute_trace engine fs c = Inr (c, 1)"
    by (simp add: compute_trace_def s)
  then show ?thesis by (simp add: compute_values_def)
qed

theorem rerun_on_fixed_point_witness:
  "compute_values sample_engine [user_field ''a'' (PInt 1), calc_field ''b'' ''a + 1'']
     [''a'' \<mapsto> PInt 1, ''b'' \<mapsto> PInt 2] = Inr [''a'' \<mapsto> PInt 1, ''b'' \<mapsto> PInt 2]"
proof -
  let ?fs = "[user_field ''a'' (PInt 1), calc_field ''b'' ''a + 1'']"
  have t: "compute_trace sample_engine ?fs Map.empty = Inr ([''a'' \<mapsto> PInt 1, ''b'' \<mapsto> PInt 2], 2)"
    by (simp add: compute_trace_def eval_nat_numeral sample_engine_def calc_field_def
        user_field_def is_calc_def is_user_def py_get_def)
  have k: "(2::nat) < 8 \<or> eval_pass sample_engine [''a'' \<mapsto> PInt 1, ''b'' \<mapsto> PInt 2] ?fs
             [''a'' \<mapsto> PInt 1, ''b'' \<mapsto> PInt 2] False = Inr ([''a'' \<mapsto> PInt 1, ''b'' \<mapsto> PInt 2], False)"
    by simp
  from rerun_on_fixed_point [OF t k] show ?thesis by blast
qed

text \<open>
  Without a fixed point the claim fails: the calc field \<^verbatim>\<open>a\<close> with formula \<^verbatim>\<open>a + 1\<close> and
  input \<^verbatim>\<open>a = 0\<close> is raised by one in each of the eight passes, and by eight more when the
  result is fed back.
\<close>

theorem rerun_not_idempotent:
  "compute_values sample_engine [calc_field ''a'' ''a + 1''] [''a'' \<mapsto> PInt 0] =
     Inr [''a'' \<mapsto> PInt 8] \<and>
   compute_values sample_engine [calc_field ''a'' ''a + 1''] [''a'' \<mapsto> PInt 8] =
     Inr [''a'' \<mapsto> PInt 16]"
  by (simp add: compute_values_def compute_trace_def eval_nat_numeral sample_engine_def
      calc_field_def is_calc_def is_user_def py_get_def)

section \<open>\<^verbatim>\<open>ScenarioBuilder\<close> against \<^verbatim>\<open>TemplateRenderer\<close>\<close>

text \<open>
  C10. On a field list in which every field has a \<^verbatim>\<open>source\<close> key, a renderer with the
  inputs as its overrides and nothing cached returns what \<^verbatim>\<open>ScenarioBuilder\<close>'s evaluator
  returns, exception or context. A field without the key is where they part:
  \<^verbatim>\<open>ScenarioBuilder\<close>'s seeding passes it over, \<^verbatim>\<open>TemplateRenderer\<close>'s seeding writes its
  default when its id is not yet a key of the context.
\<close>

theorem evaluators_agree_on_explicit_source:
  "((\<forall>f \<in> set fs. source f \<noteq> None) \<longrightarrow>
      fst (tr_compute_values engine \<lparr>overrides = inputs, cached_values = None\<rparr> fs) =
        compute_values engine fs inputs) \<and>
   (source f = None \<longrightarrow> seed (f # fs) ctx = seed fs ctx) \<and>
   (source f = None \<longrightarrow> ctx (fid f) = None \<longrightarrow>
      tr_seed (f # fs) ctx = tr_seed fs (ctx(fid f \<mapsto> py_get (dflt f))))"
proof (intro conjI impI)
  assume "\<forall>f \<in> set fs. source f \<noteq> None"
  then have "tr_seed fs inputs = seed fs inputs" by (rule tr_seed_eq)
  then show "fst (tr_compute_values engine \<lparr>overrides = inputs, cached_values = None\<rparr> fs) =
        compute_values engine fs inputs"
    by (simp add: tr_compute_values_def compute_values_def compute_trace_def tr_passes_eq
        split: sum.splits)
next
  assume "source f = None"
  then show "seed (f # fs) ctx = seed fs ctx"
    by (simp add: is_user_def py_get_def)
next
  assume "source f = None" "ctx (fid f) = None"
  then show "tr_seed (f # fs) ctx = tr_seed fs (ctx(fid f \<mapsto> py_get (dflt f)))"
    by (simp add: tr_is_user_def)
qed

theorem evaluators_agree_on_explicit_source_witness:
  "fst (tr_compute_values sample_engine \<lparr>overrides = Map.empty, cached_values = None\<rparr>
          [user_field ''a'' (PInt 1), calc_field ''b'' ''a + 1'']) =
     compute_values sample_engine [user_field ''a'' (PInt 1), calc_field ''b'' ''a + 1''] Map.empty \<and>
   seed [bare_field ''r'' (PInt 5)] Map.empty = Map.empty \<and>
   tr_seed [bare_field ''r'' (PInt 5)] Map.empty = [''r'' \<mapsto> PInt 5]"
proof -
  let ?fs = "[user_field ''a'' (PInt 1), calc_field ''b'' ''a + 1'']"
  have h: "\<forall>f \<in> set ?fs. source f \<noteq> None"
    by (simp add: user_field_def calc_field_def)
  have n: "source (bare_field ''r'' (PInt 5)) = None" by (simp add: bare_field_def)
  have m: "Map.empty (fid (bare_field ''r'' (PInt 5))) = None" by simp
  have d: "py_get (dflt (bare_field ''r'' (PInt 5))) = PInt 5" "fid (bare_field ''r'' (PInt 5)) = ''r''"
    by (simp_all add: bare_field_def py_get_def)
  from evaluators_agree_on_explicit_source
         [where fs = ?fs and engine = sample_engine and inputs = Map.empty and f = "user_field ''a'' (PInt 1)"] h
  have 1: "fst (tr_compute_values sample_engine \<lparr>overrides = Map.empty, cached_values = None\<rparr> ?fs) =
     compute_values sample_engine ?fs Map.empty" by blast
  note inst = evaluators_agree_on_explicit_source
         [where fs = "[]" and f = "bare_field ''r'' (PInt 5)" and ctx = Map.empty]
  from inst n have "seed [bare_field ''r'' (PInt 5)] Map.empty = seed [] Map.empty"
    by blast
  then have 2: "seed [bare_field ''r'' (PInt 5)] Map.empty = Map.empty"
    by (simp only: seed.simps(1))
  from inst n m have "tr_seed [bare_field ''r'' (PInt 5)] Map.empty =
      tr_seed [] [fid (bare_field ''r'' (PInt 5)) \<mapsto> py_get (dflt (bare_field ''r'' (PInt 5)))]"
    by blast
  then have 3: "tr_seed [bare_field ''r'' (PInt 5)] Map.empty = [''r'' \<mapsto> PInt 5]"
    by (simp only: tr_seed.simps(1) d)
  from 1 2 3 show ?thesis by (intro conjI)
qed


section \<open>The merged field list\<close>



section \<open>An unknown id in \<^verbatim>\<open>use_fields\<close>\<close>

text \<open>
  C4. When \<^verbatim>\<open>use_fields\<close> has an id that no catalogue field has, the merge returns no
  list: it fails at the first such id, with the error that carries it (\<^verbatim>\<open>gmap[field_id]\<close>
  raises \<^verbatim>\<open>KeyError(field_id)\<close>, the code's form of the specification's
  \<^verbatim>\<open>UnknownFieldError\<close>). The entry is not skipped, and the ids after it are not looked at.
\<close>

theorem unknown_use_field_fails:
  assumes "i \<in> set (used_ids scenario)" and "\<forall>g \<in> set (catalogue globals). fid g \<noteq> i"
  shows "\<exists>pre j post. used_ids scenario = pre @ j # post \<and>
           (\<forall>x \<in> set pre. \<exists>g \<in> set (catalogue globals). fid g = x) \<and>
           (\<forall>g \<in> set (catalogue globals). fid g \<noteq> j) \<and>
           merge_fields globals scenario = Inl (KeyError j)"
proof -
  let ?gmap = "gmap_of (catalogue globals) Map.empty"
  from assms have "\<not> ?gmap i \<noteq> None" unfolding gmap_known by auto
  from first_unknown [of i "used_ids scenario" "\<lambda>x. ?gmap x \<noteq> None", OF assms(1) this]
  obtain pre j post where u: "used_ids scenario = pre @ j # post"
    and pre: "\<forall>x \<in> set pre. ?gmap x \<noteq> None" and j: "?gmap j = None"
    by auto
  from merge_loop_unknown [OF pre j]
  have "merge_fields globals scenario = Inl (KeyError j)"
    by (simp add: merge_fields_def u)
  moreover from pre have "\<forall>x \<in> set pre. \<exists>g \<in> set (catalogue globals). fid g = x"
    unfolding gmap_known by auto
  moreover from j have "\<forall>g \<in> set (catalogue globals). fid g \<noteq> j"
    using gmap_known [of "catalogue globals" j] by auto
  ultimately show ?thesis using u by blast
qed

theorem unknown_use_field_fails_witness:
  "merge_fields
     \<lparr>globals_fields = Some [user_field ''rate'' (PInt 5)]\<rparr>
     \<lparr>use_fields = Some [''rate'', ''fee'', ''tax''], scenario_overrides = None,
      scenario_fields = Some [calc_field ''x'' ''7'']\<rparr> = Inl (KeyError ''fee'')"
proof -
  let ?g = "\<lparr>globals_fields = Some [user_field ''rate'' (PInt 5)]\<rparr>"
  let ?s = "\<lparr>use_fields = Some [''rate'', ''fee'', ''tax''], scenario_overrides = None,
      scenario_fields = Some [calc_field ''x'' ''7'']\<rparr>"
  have a: "''fee'' \<in> set (used_ids ?s)" by (simp add: used_ids_def)
  have b: "\<forall>g \<in> set (catalogue ?g). fid g \<noteq> ''fee''"
    by (simp add: catalogue_def user_field_def)
  from unknown_use_field_fails [OF a b]
  obtain pre j post where u: "used_ids ?s = pre @ j # post"
    and p: "\<forall>x \<in> set pre. \<exists>g \<in> set (catalogue ?g). fid g = x"
    and j: "\<forall>g \<in> set (catalogue ?g). fid g \<noteq> j"
    and m: "merge_fields ?g ?s = Inl (KeyError j)" by blast
  from u p j have "j = ''fee''"
    by (auto simp: used_ids_def catalogue_def user_field_def Cons_eq_append_conv)
  with m show ?thesis by simp
qed


section \<open>The arguments are left as they were\<close>



end
